theory Spec2Isabelle
  imports Main
begin

section \<open>Rock-paper-scissors-spock-lizard: data model\<close>

text \<open>
  The game program keeps three module-level tables (\<open>SETTINGS\<close>, \<open>COMMANDS\<close>, \<open>MOVES\<close>)
  and one mutable dictionary per match (\<open>game\<close>). Python dictionaries keep insertion
  order and have distinct keys, so a table is an association list with distinct keys.
  Python integers are unbounded: \<open>int\<close>. A Python string is a sequence of Unicode code
  points; the model holds it as the bytes of its UTF-8 encoding (\<open>string\<close>, a \<open>char\<close> is
  one byte; a lone surrogate is encoded like any other code point), so that an ASCII
  string is its own encoding and two strings are equal exactly when their encodings
  are.

  The functions of the source read the globals \<open>MOVES\<close> and \<open>SETTINGS\<close> when they are
  called. The model passes them as the arguments \<open>mv\<close> and \<open>cfg\<close>; the constants
  \<open>MOVES\<close> and \<open>SETTINGS\<close> are the values the source assigns.
\<close>

datatype py_error = KeyError string | EOFError | SystemExit | IndexError

record move_details =
  "alias" :: string
  beats :: "string list"

type_synonym catalog = "(string \<times> move_details) list"

record settings =
  opponent_name :: string
  scoreboard_width :: int
  points_to_win :: int

definition SETTINGS :: settings where
  "SETTINGS = \<lparr>opponent_name = ''Monty'', scoreboard_width = 23, points_to_win = 3\<rparr>"

definition COMMANDS :: "(string \<times> string) list" where
  "COMMANDS = [(''help'', ''h''), (''quit'', ''q!'')]"

definition MOVES :: catalog where
  "MOVES =
    [(''rock'',    \<lparr>alias = ''r'', beats = [''scissor'', ''lizard'']\<rparr>),
     (''paper'',   \<lparr>alias = ''p'', beats = [''rock'', ''spock'']\<rparr>),
     (''scissor'', \<lparr>alias = ''s'', beats = [''paper'', ''lizard'']\<rparr>),
     (''spock'',   \<lparr>alias = ''k'', beats = [''rock'', ''scissor'']\<rparr>),
     (''lizard'',  \<lparr>alias = ''l'', beats = [''paper'', ''spock'']\<rparr>)]"

text \<open>\<open>d.keys()\<close> and \<open>d.values()\<close>, in insertion order.\<close>

definition keys :: "('k \<times> 'v) list \<Rightarrow> 'k list" where
  "keys d = map fst d"

definition vals :: "('k \<times> 'v) list \<Rightarrow> 'v list" where
  "vals d = map snd d"

text \<open>\<open>MOVES[k]\<close>: a missing key raises \<open>KeyError\<close>.\<close>

definition getitem :: "catalog \<Rightarrow> string \<Rightarrow> py_error + move_details" where
  "getitem mv k = (case map_of mv k of None \<Rightarrow> Inl (KeyError k) | Some d \<Rightarrow> Inr d)"

text \<open>The dictionary \<open>create_game\<close> returns; \<open>None\<close> is Python's \<open>None\<close>.\<close>

record game =
  current_round :: int
  tiebreaker_round :: bool
  user_score :: int
  opponent_score :: int
  round_winner :: "string option"
  grand_winner :: "string option"

definition create_game :: game where
  "create_game =
    \<lparr>current_round = 1, tiebreaker_round = False, user_score = 0, opponent_score = 0,
     round_winner = None, grand_winner = None\<rparr>"

section \<open>Resolving and applying a round\<close>

text \<open>
  \<open>process_round\<close> has three nested functions. \<open>determine_round_winner\<close> runs two
  independent \<open>if\<close> statements, the second overwriting the first; each subscript of
  \<open>MOVES\<close> can raise. The winner is \<open>None\<close> (a tie), the literal \<open>"user"\<close>, or the
  configured opponent name.
\<close>

definition determine_round_winner ::
  "catalog \<Rightarrow> settings \<Rightarrow> string \<Rightarrow> string \<Rightarrow> py_error + string option" where
  "determine_round_winner mv cfg user_move opponent_move =
    (case getitem mv user_move of
       Inl e \<Rightarrow> Inl e
     | Inr du \<Rightarrow>
        (let winner = (if opponent_move \<in> set (beats du) then Some ''user'' else None)
         in case getitem mv opponent_move of
              Inl e \<Rightarrow> Inl e
            | Inr dopp \<Rightarrow>
                Inr (if user_move \<in> set (beats dopp) then Some (opponent_name cfg)
                     else winner)))"

definition determine_grand_winner :: "settings \<Rightarrow> game \<Rightarrow> string option" where
  "determine_grand_winner cfg g =
    (if user_score g > 2 then Some ''user''
     else if opponent_score g > 2 then Some (opponent_name cfg)
     else None)"

definition increment_score :: "settings \<Rightarrow> game \<Rightarrow> string option \<Rightarrow> game" where
  "increment_score cfg g winner =
    (let g1 = (if winner = Some ''user'' then g\<lparr>user_score := user_score g + 1\<rparr> else g)
     in if winner = Some (opponent_name cfg)
        then g1\<lparr>opponent_score := opponent_score g1 + 1\<rparr> else g1)"

text \<open>
  \<open>process_round\<close> mutates the game in place; the model returns the new game. The round
  counter is incremented before the winner is determined. An exception of the subscript
  is caught nowhere in the program, so the result is then the error alone.
\<close>

definition process_round ::
  "catalog \<Rightarrow> settings \<Rightarrow> game \<Rightarrow> string \<Rightarrow> string \<Rightarrow> py_error + game" where
  "process_round mv cfg g user_move opponent_move =
    (let g1 = g\<lparr>current_round := current_round g + 1\<rparr>
     in case determine_round_winner mv cfg user_move opponent_move of
          Inl e \<Rightarrow> Inl e
        | Inr winner \<Rightarrow>
            (let g2 = increment_score cfg g1 winner;
                 g3 = g2\<lparr>round_winner := winner\<rparr>;
                 g4 = g3\<lparr>grand_winner := determine_grand_winner cfg g3\<rparr>
             in Inr (g4\<lparr>tiebreaker_round :=
                          (user_score g4 = 2 \<and> opponent_score g4 = 2)\<rparr>)))"

text \<open>
  The rounds of a match fed one after the other: \<open>process_round\<close> applied to each pair
  (user move, opponent move) in turn, stopping at the first exception.
\<close>

fun process_rounds ::
  "catalog \<Rightarrow> settings \<Rightarrow> game \<Rightarrow> (string \<times> string) list \<Rightarrow> py_error + game" where
  "process_rounds mv cfg g [] = Inr g"
| "process_rounds mv cfg g ((user_move, opponent_move) # rest) =
    (case process_round mv cfg g user_move opponent_move of
       Inl e \<Rightarrow> Inl e
     | Inr g' \<Rightarrow> process_rounds mv cfg g' rest)"

text \<open>The reading \<open>b in MOVES[a]["beats"]\<close> of the table, false for a missing key.\<close>

definition beats_in :: "catalog \<Rightarrow> string \<Rightarrow> string \<Rightarrow> bool" where
  "beats_in mv a b = (case map_of mv a of None \<Rightarrow> False | Some d \<Rightarrow> b \<in> set (beats d))"

text \<open>
  A catalog that is not a tournament, to see what the program does with one: rock and
  paper beat each other, and neither of rock and lizard beats the other.
\<close>

definition MOVES_both_ways :: catalog where
  "MOVES_both_ways =
    [(''rock'',    \<lparr>alias = ''r'', beats = [''scissor'', ''paper'']\<rparr>),
     (''paper'',   \<lparr>alias = ''p'', beats = [''rock'', ''spock'']\<rparr>),
     (''scissor'', \<lparr>alias = ''s'', beats = [''paper'', ''lizard'']\<rparr>),
     (''spock'',   \<lparr>alias = ''k'', beats = [''rock'', ''scissor'']\<rparr>),
     (''lizard'',  \<lparr>alias = ''l'', beats = [''paper'', ''spock'']\<rparr>)]"

text \<open>
  A game at two points each whose tiebreaker flag was not yet set, and the untied rounds
  of a list of rounds.
\<close>

definition deadlock_stale :: game where
  "deadlock_stale =
    \<lparr>current_round = 5, tiebreaker_round = False, user_score = 2, opponent_score = 2,
     round_winner = Some ''Monty'', grand_winner = None\<rparr>"

definition untied :: "catalog \<Rightarrow> settings \<Rightarrow> string \<times> string \<Rightarrow> bool" where
  "untied mv cfg r = (determine_round_winner mv cfg (fst r) (snd r) \<noteq> Inr None)"

section \<open>Classifying input\<close>

text \<open>
  \<open>len(s)\<close> counts code points: in UTF-8 these are the bytes that are not continuation
  bytes (codes 128 to 191). \<open>isascii s\<close>: every character of \<open>s\<close> is below 128.
\<close>

definition len :: "string \<Rightarrow> nat" where
  "len s = length (filter (\<lambda>c. \<not> (128 \<le> (of_char c :: nat) \<and> (of_char c :: nat) < 192)) s)"

definition isascii :: "string \<Rightarrow> bool" where
  "isascii s = list_all (\<lambda>c. (of_char c :: nat) < 128) s"

text \<open>
  \<open>str.lower()\<close> is a builtin of the Python runtime. On a string of ASCII characters it
  moves the letters \<open>A\<close> to \<open>Z\<close> (codes 65 to 90) to \<open>a\<close> to \<open>z\<close> and keeps every other
  character. On every other string its result comes from the Unicode tables of the
  runtime (the Kelvin sign U+212A, for one, becomes \<open>k\<close>), which are not part of the
  program: the model takes the lowering of those strings as the argument \<open>uni\<close>, and
  every property below holds whatever \<open>uni\<close> is. No function of the program strips
  whitespace.
\<close>

definition lower_ascii_char :: "char \<Rightarrow> char" where
  "lower_ascii_char c =
    (let n = (of_char c :: nat) in if 65 \<le> n \<and> n \<le> 90 then char_of (n + 32) else c)"

definition lower :: "(string \<Rightarrow> string) \<Rightarrow> string \<Rightarrow> string" where
  "lower uni s = (if isascii s then map lower_ascii_char s else uni s)"

definition is_valid_input :: "catalog \<Rightarrow> string \<Rightarrow> bool" where
  "is_valid_input mv input_str =
    (let moves = keys mv @ map alias (vals mv);
         commands = keys COMMANDS @ vals COMMANDS;
         valid_inputs = moves @ commands
     in input_str \<in> set valid_inputs)"

definition get_input_type :: "catalog \<Rightarrow> string \<Rightarrow> string" where
  "get_input_type mv input_str =
    (if \<not> is_valid_input mv input_str then ''invalid''
     else let commands = keys COMMANDS @ vals COMMANDS
          in if input_str \<in> set commands then ''command'' else ''move'')"

text \<open>The loop over \<open>MOVES.items()\<close>: the first move whose alias matches, else the argument.\<close>

fun expand_move_abbreviation :: "catalog \<Rightarrow> string \<Rightarrow> string" where
  "expand_move_abbreviation [] a = a"
| "expand_move_abbreviation ((move, details) # rest) a =
    (if a = alias details then move else expand_move_abbreviation rest a)"

text \<open>
  The program has no single classifier function. A raw line becomes the user move of a
  round along one path: \<open>play_round\<close> lowers the line and asks \<open>get_input_type\<close>; only for
  the type \<open>"move"\<close> does it call \<open>process_moves\<close>, which expands a one-letter token before
  \<open>process_round\<close>. \<open>classify\<close> is that path; \<open>None\<close> means that no round is played.
\<close>

definition classify :: "(string \<Rightarrow> string) \<Rightarrow> catalog \<Rightarrow> string \<Rightarrow> string option" where
  "classify uni mv raw =
    (let user_input = lower uni raw
     in if get_input_type mv user_input = ''move''
        then Some (if len user_input = 1 then expand_move_abbreviation mv user_input
                   else user_input)
        else None)"


text \<open>
  The Kelvin sign U+212A in UTF-8, and a lowering of non-ASCII strings that knows the
  one rule of Unicode that sends it to \<open>k\<close>.
\<close>

definition kelvin_sign :: string where
  "kelvin_sign = [CHR 0xE2, CHR 0x84, CHR 0xAA]"

definition lower_kelvin :: "string \<Rightarrow> string" where
  "lower_kelvin s = (if s = kelvin_sign then ''k'' else s)"

section \<open>The match loop\<close>

text \<open>
  The outside world of the program: the lines still to be read from standard input and
  the random source (\<open>draws w i\<close> is the \<open>i\<close>-th draw, \<open>drawn w\<close> counts the draws used).
  Printing, clearing the screen and sleeping change neither the game nor what is read,
  and are left out; the message table read from \<open>messages.json\<close> is taken to hold every
  key the program asks for.
\<close>

record world =
  stdin :: "string list"
  draws :: "nat \<Rightarrow> nat"
  drawn :: nat

text \<open>\<open>input()\<close>: the next line, \<open>EOFError\<close> at the end of the input.\<close>

definition input_line :: "world \<Rightarrow> py_error + (string \<times> world)" where
  "input_line w =
    (case stdin w of [] \<Rightarrow> Inl EOFError | l # ls \<Rightarrow> Inr (l, w\<lparr>stdin := ls\<rparr>))"

text \<open>\<open>random.choice(seq)\<close>: an element at a drawn index, \<open>IndexError\<close> on an empty list.\<close>

definition random_choice :: "'a list \<Rightarrow> world \<Rightarrow> py_error + ('a \<times> world)" where
  "random_choice xs w =
    (if xs = [] then Inl IndexError
     else Inr (xs ! (draws w (drawn w) mod length xs), w\<lparr>drawn := drawn w + 1\<rparr>))"

text \<open>
  \<open>prompt_enter_to_continue\<close> reads a line and hands a command to \<open>process_command\<close>,
  which after \<open>help\<close> prompts again and otherwise leaves the program (\<open>sys.exit\<close>).
\<close>

function prompt_enter_to_continue :: "(string \<Rightarrow> string) \<Rightarrow> catalog \<Rightarrow> bool \<Rightarrow> world \<Rightarrow> py_error + world"
  and process_command :: "(string \<Rightarrow> string) \<Rightarrow> catalog \<Rightarrow> string \<Rightarrow> world \<Rightarrow> py_error + world" where
  "prompt_enter_to_continue uni mv allow_command w =
    (case input_line w of
       Inl e \<Rightarrow> Inl e
     | Inr (line, w1) \<Rightarrow>
        (let user_input = lower uni line
         in if allow_command \<and> get_input_type mv user_input = ''command''
            then process_command uni mv user_input w1
            else Inr w1))"
| "process_command uni mv command w =
    (if command \<in> {''help'', ''h''} then prompt_enter_to_continue uni mv True w
     else Inl SystemExit)"
  by pat_completeness auto
termination
  by (relation "measure (\<lambda>x. case x of
          Inl (uni, mv, a, w) \<Rightarrow> 2 * length (stdin w)
        | Inr (uni, mv, c, w) \<Rightarrow> 2 * length (stdin w) + 1)")
     (auto simp: input_line_def split: list.splits)

declare prompt_enter_to_continue.simps [simp del] process_command.simps [simp del]

lemma input_line_consumes:
  "input_line w = Inr (line, w1) \<Longrightarrow>
     stdin w = line # stdin w1 \<and> draws w1 = draws w \<and> drawn w1 = drawn w"
  by (auto simp: input_line_def split: list.splits)

lemma prompt_consumes:
  "prompt_enter_to_continue uni mv a w = Inr w' \<Longrightarrow>
      length (stdin w') < length (stdin w) \<and> draws w' = draws w \<and> drawn w' = drawn w"
  "process_command uni mv c w = Inr w' \<Longrightarrow>
      length (stdin w') < length (stdin w) \<and> draws w' = draws w \<and> drawn w' = drawn w"
proof (induction uni mv a w and uni mv c w arbitrary: w' and w'
       rule: prompt_enter_to_continue_process_command.induct)
  case (1 uni mv allow_command w)
  from "1.prems" obtain line w1 where il: "input_line w = Inr (line, w1)"
    by (subst (asm) prompt_enter_to_continue.simps) (auto split: sum.splits)
  from input_line_consumes [OF il] have w1:
    "length (stdin w1) < length (stdin w)" "draws w1 = draws w" "drawn w1 = drawn w"
    by simp_all
  show ?case
  proof (cases "allow_command \<and> get_input_type mv (lower uni line) = ''command''")
    case True
    with "1.prems" il have "process_command uni mv (lower uni line) w1 = Inr w'"
      by (subst (asm) prompt_enter_to_continue.simps) (simp add: Let_def)
    from "1.IH" [OF il refl refl True this] w1 show ?thesis by simp
  next
    case False
    with "1.prems" il have "w' = w1"
      by (subst (asm) prompt_enter_to_continue.simps) (auto simp: Let_def)
    with w1 show ?thesis by simp
  qed
next
  case (2 uni mv command w)
  from "2.prems" have c: "command \<in> {''help'', ''h''}"
    and r: "prompt_enter_to_continue uni mv True w = Inr w'"
    by (auto simp: process_command.simps split: if_splits)
  from "2.IH" [OF c r] show ?case .
qed

text \<open>
  \<open>display_round_results\<close> and \<open>display_game_results\<close> print and then wait for a line;
  the invalid-input branch of \<open>play_round\<close> does the same.
\<close>

definition display_round_results ::
  "(string \<Rightarrow> string) \<Rightarrow> catalog \<Rightarrow> world \<Rightarrow> py_error + world" where
  "display_round_results uni mv w = prompt_enter_to_continue uni mv True w"

definition display_game_results ::
  "(string \<Rightarrow> string) \<Rightarrow> catalog \<Rightarrow> world \<Rightarrow> py_error + world" where
  "display_game_results uni mv w = prompt_enter_to_continue uni mv True w"

definition process_moves ::
  "(string \<Rightarrow> string) \<Rightarrow> catalog \<Rightarrow> settings \<Rightarrow> game \<Rightarrow> string \<Rightarrow> string \<Rightarrow> world \<Rightarrow> py_error + (game \<times> world)" where
  "process_moves uni mv cfg g user_move opponent_move w =
    (let user_move' = (if len user_move = 1 then expand_move_abbreviation mv user_move
                       else user_move)
     in case process_round mv cfg g user_move' opponent_move of
          Inl e \<Rightarrow> Inl e
        | Inr g' \<Rightarrow>
           (case display_round_results uni mv w of
              Inl e \<Rightarrow> Inl e
            | Inr w' \<Rightarrow> Inr (g', w')))"

text \<open>
  \<open>play_round\<close> loops until a line is a move. Each pass reads at least one line, so the
  loop ends on every finite input, with \<open>EOFError\<close> at the latest.
\<close>

function play_round ::
  "(string \<Rightarrow> string) \<Rightarrow> catalog \<Rightarrow> settings \<Rightarrow> game \<Rightarrow> world \<Rightarrow> py_error + (game \<times> world)" where
  "play_round uni mv cfg g w =
    (case input_line w of
       Inl e \<Rightarrow> Inl e
     | Inr (line, w1) \<Rightarrow>
        (let user_input = lower uni line;
             input_type = get_input_type mv user_input
         in if input_type = ''move''
            then (case random_choice (keys mv) w1 of
                    Inl e \<Rightarrow> Inl e
                  | Inr (opponent_move, w2) \<Rightarrow>
                      process_moves uni mv cfg g user_input opponent_move w2)
            else (case (if input_type = ''command'' then process_command uni mv user_input w1
                        else prompt_enter_to_continue uni mv True w1) of
                    Inl e \<Rightarrow> Inl e
                  | Inr w2 \<Rightarrow> play_round uni mv cfg g w2)))"
  by pat_completeness auto
termination
proof (relation "measure (\<lambda>(uni, mv, cfg, g, w). length (stdin w))", goal_cases)
  case 1
  show ?case by simp
next
  case (2 uni mv cfg g w x line w1 user_input input_type w2)
  from 2 have "length (stdin w1) < length (stdin w)"
    by (auto simp: input_line_def split: list.splits)
  moreover from 2 have "length (stdin w2) < length (stdin w1)"
    by (auto dest: prompt_consumes split: if_splits)
  ultimately show ?case by simp
qed

declare play_round.simps [simp del]

text \<open>Python's truth value of \<open>game["grand_winner"]\<close>: \<open>None\<close> and the empty string are false.\<close>

definition truthy :: "string option \<Rightarrow> bool" where
  "truthy x = (case x of None \<Rightarrow> False | Some s \<Rightarrow> s \<noteq> [])"

lemma random_choice_stdin:
  "random_choice xs w = Inr (x, w') \<Longrightarrow> stdin w' = stdin w"
  by (auto simp: random_choice_def split: if_splits)

lemma process_moves_consumes:
  "process_moves uni mv cfg g um om w = Inr (g', w') \<Longrightarrow> length (stdin w') < length (stdin w)"
  by (auto simp: process_moves_def display_round_results_def Let_def
           split: sum.splits dest: prompt_consumes)

lemma play_round_consumes:
  "play_round uni mv cfg g w = Inr (g', w') \<Longrightarrow> length (stdin w') < length (stdin w)"
proof (induction uni mv cfg g w rule: play_round.induct)
  case (1 uni mv cfg g w)
  from "1.prems" obtain line w1 where il: "input_line w = Inr (line, w1)"
    by (subst (asm) play_round.simps) (auto split: sum.splits)
  then have lt: "length (stdin w1) < length (stdin w)"
    by (auto dest: input_line_consumes)
  show ?case
  proof (cases "get_input_type mv (lower uni line) = ''move''")
    case True
    with "1.prems" il obtain om w2 where
      rc: "random_choice (keys mv) w1 = Inr (om, w2)"
      and pm: "process_moves uni mv cfg g (lower uni line) om w2 = Inr (g', w')"
      by (subst (asm) play_round.simps) (auto split: sum.splits)
    from random_choice_stdin [OF rc] process_moves_consumes [OF pm]
    have "length (stdin w') < length (stdin w1)" by simp
    with lt show ?thesis by simp
  next
    case False
    with "1.prems" il obtain w2 where
      step: "(if get_input_type mv (lower uni line) = ''command''
              then process_command uni mv (lower uni line) w1
              else prompt_enter_to_continue uni mv True w1) = Inr w2"
      and rest: "play_round uni mv cfg g w2 = Inr (g', w')"
      by (subst (asm) play_round.simps) (auto simp: Let_def split: sum.splits)
    from step have "length (stdin w2) < length (stdin w1)"
      by (auto dest: prompt_consumes split: if_splits)
    moreover from "1.IH" [OF il refl refl refl False step rest]
    have "length (stdin w') < length (stdin w2)" .
    ultimately show ?thesis using lt by simp
  qed
qed

text \<open>
  \<open>play_game\<close>: the loop \<open>while not game["grand_winner"]\<close> around \<open>play_round\<close>, then the
  final display.
\<close>

function play_game_loop ::
  "(string \<Rightarrow> string) \<Rightarrow> catalog \<Rightarrow> settings \<Rightarrow> game \<Rightarrow> world \<Rightarrow> py_error + (game \<times> world)" where
  "play_game_loop uni mv cfg g w =
    (if truthy (grand_winner g) then Inr (g, w)
     else case play_round uni mv cfg g w of
            Inl e \<Rightarrow> Inl e
          | Inr (g', w') \<Rightarrow> play_game_loop uni mv cfg g' w')"
  by pat_completeness auto
termination
  by (relation "measure (\<lambda>(uni, mv, cfg, g, w). length (stdin w))")
     (auto dest: play_round_consumes)

declare play_game_loop.simps [simp del]

definition play_game ::
  "(string \<Rightarrow> string) \<Rightarrow> catalog \<Rightarrow> settings \<Rightarrow> world \<Rightarrow> py_error + (game \<times> world)" where
  "play_game uni mv cfg w =
    (case play_game_loop uni mv cfg create_game w of
       Inl e \<Rightarrow> Inl e
     | Inr (g, w1) \<Rightarrow>
        (case display_game_results uni mv w1 of
           Inl e \<Rightarrow> Inl e
         | Inr w2 \<Rightarrow> Inr (g, w2)))"

text \<open>
  The games the loop of \<open>play_game\<close> passes through: the fresh game, and every game
  that one pass of the loop body makes of a game on which the loop condition holds.
\<close>

inductive match_state :: "(string \<Rightarrow> string) \<Rightarrow> catalog \<Rightarrow> settings \<Rightarrow> game \<Rightarrow> bool"
  for uni :: "string \<Rightarrow> string" and mv :: catalog and cfg :: settings where
  start: "match_state uni mv cfg create_game"
| round: "\<lbrakk>match_state uni mv cfg g; \<not> truthy (grand_winner g);
           play_round uni mv cfg g w = Inr (g', w')\<rbrakk> \<Longrightarrow> match_state uni mv cfg g'"

text \<open>
  An input on which the user plays rock three times (once as \<open>R\<close>, with an empty line
  after each round) against scissor each time, and the game at the end of that match.
\<close>

definition three_rocks :: world where
  "three_rocks =
    \<lparr>stdin = [''rock'', [], ''R'', [], ''rock'', []], draws = (\<lambda>i. 2), drawn = 0\<rparr>"

definition user_won :: game where
  "user_won =
    \<lparr>current_round = 4, tiebreaker_round = False, user_score = 3, opponent_score = 0,
     round_winner = Some ''user'', grand_winner = Some ''user''\<rparr>"

section \<open>Properties of the round resolver\<close>

lemma keys_MOVES:
  "set (keys MOVES) = {''rock'', ''paper'', ''scissor'', ''spock'', ''lizard''}"
  by (simp add: keys_def MOVES_def)

lemma beats_in_MOVES:
  "beats_in MOVES a b \<longleftrightarrow>
     (a, b) \<in> {(''rock'', ''scissor''), (''rock'', ''lizard''),
                (''paper'', ''rock''), (''paper'', ''spock''),
                (''scissor'', ''paper''), (''scissor'', ''lizard''),
                (''spock'', ''rock''), (''spock'', ''scissor''),
                (''lizard'', ''paper''), (''lizard'', ''spock'')}"
  by (simp add: beats_in_def MOVES_def)

lemma getitem_beats_in:
  "getitem mv a = Inr d \<Longrightarrow> b \<in> set (beats d) \<longleftrightarrow> beats_in mv a b"
  by (auto simp: getitem_def beats_in_def split: option.splits)

lemma getitem_keys:
  "a \<in> set (keys mv) \<Longrightarrow> \<exists>d. getitem mv a = Inr d"
  by (cases "map_of mv a") (auto simp: getitem_def keys_def map_of_eq_None_iff)

lemma resolve_keys:
  assumes "um \<in> set (keys mv)" and "om \<in> set (keys mv)"
  shows "determine_round_winner mv cfg um om =
           Inr (if beats_in mv om um then Some (opponent_name cfg)
                else if beats_in mv um om then Some ''user'' else None)"
proof -
  from assms obtain du dopp where
    du: "getitem mv um = Inr du" and dopp: "getitem mv om = Inr dopp"
    by (blast dest: getitem_keys)
  show ?thesis
    by (simp add: determine_round_winner_def du dopp
        getitem_beats_in [OF du] getitem_beats_in [OF dopp])
qed

lemma resolve_Inr:
  assumes "determine_round_winner mv cfg um om = Inr winner"
  shows "winner = (if beats_in mv om um then Some (opponent_name cfg)
                   else if beats_in mv um om then Some ''user'' else None)"
proof -
  from assms obtain du dopp where
    du: "getitem mv um = Inr du" and dopp: "getitem mv om = Inr dopp"
    by (auto simp: determine_round_winner_def split: sum.splits)
  from assms show ?thesis
    by (simp add: determine_round_winner_def du dopp
        getitem_beats_in [OF du] getitem_beats_in [OF dopp] split: if_splits)
qed

text \<open>
  C1. For canonical moves the resolver returns a tie (\<open>None\<close>) exactly when the two moves
  are equal; in particular a move against itself ties. This holds for every configured
  opponent name.
\<close>

theorem resolve_tie_iff_equal:
  assumes "um \<in> set (keys MOVES)" and "om \<in> set (keys MOVES)"
  shows "(determine_round_winner MOVES cfg um om = Inr None \<longleftrightarrow> um = om)
         \<and> determine_round_winner MOVES cfg um um = Inr None"
proof -
  from assms have "um = om \<longleftrightarrow> \<not> beats_in MOVES om um \<and> \<not> beats_in MOVES um om"
    unfolding keys_MOVES beats_in_MOVES by (elim insertE emptyE) simp_all
  moreover from assms(1) have "\<not> beats_in MOVES um um"
    unfolding keys_MOVES beats_in_MOVES by (elim insertE emptyE) simp_all
  ultimately show ?thesis
    by (simp add: resolve_keys [OF assms] resolve_keys [OF assms(1) assms(1)])
qed

theorem resolve_tie_iff_equal_witness:
  "''rock'' \<in> set (keys MOVES) \<and> ''spock'' \<in> set (keys MOVES)
   \<and> determine_round_winner MOVES SETTINGS ''rock'' ''spock'' \<noteq> Inr None
   \<and> determine_round_winner MOVES SETTINGS ''rock'' ''rock'' = Inr None"
proof -
  have r: "''rock'' \<in> set (keys MOVES)" and s: "''spock'' \<in> set (keys MOVES)"
    by (simp_all add: keys_MOVES)
  from resolve_tie_iff_equal [OF r s, of SETTINGS] r s show ?thesis by simp
qed


text \<open>
  C2. With the configured settings and two distinct canonical moves, exactly one of the
  two orders is won by the user (winner \<open>"user"\<close>), and the user wins one order exactly
  when the opponent (winner \<open>SETTINGS["opponent_name"]\<close>) wins the other.
\<close>

theorem resolve_antisymmetric:
  assumes "a \<in> set (keys MOVES)" and "b \<in> set (keys MOVES)" and "a \<noteq> b"
  shows "((determine_round_winner MOVES SETTINGS a b = Inr (Some ''user''))
            \<noteq> (determine_round_winner MOVES SETTINGS b a = Inr (Some ''user'')))
         \<and> (determine_round_winner MOVES SETTINGS a b = Inr (Some ''user'')
            \<longleftrightarrow> determine_round_winner MOVES SETTINGS b a
                  = Inr (Some (opponent_name SETTINGS)))"
proof -
  have n: "opponent_name SETTINGS = ''Monty''" by (simp add: SETTINGS_def)
  from assms have "beats_in MOVES a b \<longleftrightarrow> \<not> beats_in MOVES b a"
    unfolding keys_MOVES beats_in_MOVES by (elim insertE emptyE) simp_all
  then show ?thesis
    by (simp add: resolve_keys [OF assms(1,2)] resolve_keys [OF assms(2,1)] n)
qed


theorem resolve_antisymmetric_witness:
  "''rock'' \<in> set (keys MOVES) \<and> ''spock'' \<in> set (keys MOVES) \<and> ''rock'' \<noteq> ''spock''
   \<and> determine_round_winner MOVES SETTINGS ''rock'' ''spock'' = Inr (Some ''Monty'')
   \<and> determine_round_winner MOVES SETTINGS ''spock'' ''rock'' = Inr (Some ''user'')"
proof -
  have r: "''rock'' \<in> set (keys MOVES)" and s: "''spock'' \<in> set (keys MOVES)"
    by (simp_all add: keys_MOVES)
  have ne: "''spock'' \<noteq> ''rock''" by simp
  have sr: "determine_round_winner MOVES SETTINGS ''spock'' ''rock'' = Inr (Some ''user'')"
    by (simp add: determine_round_winner_def getitem_def MOVES_def)
  have n: "opponent_name SETTINGS = ''Monty''" by (simp add: SETTINGS_def)
  from resolve_antisymmetric [OF s r ne] sr r s show ?thesis
    unfolding n by simp
qed

section \<open>The catalog\<close>

text \<open>
  C3 (as amended). The table \<open>MOVES\<close> has the five moves; of two distinct moves exactly
  one beats the other; no move beats itself; each move beats exactly two moves and is
  beaten by exactly two. The program has no check of this: \<open>MOVES\<close> is a literal, and
  for every catalog at all the resolver answers two moves of the catalog by its two
  tests, without an exception.
\<close>

theorem MOVES_tournament:
  "keys MOVES = [''rock'', ''paper'', ''scissor'', ''spock'', ''lizard'']
   \<and> (\<forall>a \<in> set (keys MOVES). \<forall>b \<in> set (keys MOVES).
         a \<noteq> b \<longrightarrow> (beats_in MOVES a b \<longleftrightarrow> \<not> beats_in MOVES b a))
   \<and> (\<forall>a \<in> set (keys MOVES).
         \<not> beats_in MOVES a a
         \<and> length (filter (beats_in MOVES a) (keys MOVES)) = 2
         \<and> length (filter (\<lambda>b. beats_in MOVES b a) (keys MOVES)) = 2)
   \<and> (um \<in> set (keys mv) \<and> om \<in> set (keys mv) \<longrightarrow>
         determine_round_winner mv cfg um om =
           Inr (if beats_in mv om um then Some (opponent_name cfg)
                else if beats_in mv um om then Some ''user'' else None))"
proof (intro conjI ballI impI)
  show "keys MOVES = [''rock'', ''paper'', ''scissor'', ''spock'', ''lizard'']"
    by (simp add: keys_def MOVES_def)
next
  fix a b assume "a \<in> set (keys MOVES)" "b \<in> set (keys MOVES)" "a \<noteq> b"
  then show "beats_in MOVES a b \<longleftrightarrow> \<not> beats_in MOVES b a"
    unfolding keys_MOVES beats_in_MOVES by (elim insertE emptyE) simp_all
next
  fix a assume "a \<in> set (keys MOVES)"
  then show "\<not> beats_in MOVES a a"
    unfolding keys_MOVES beats_in_MOVES by (elim insertE emptyE) simp_all
next
  fix a assume a: "a \<in> set (keys MOVES)"
  have k: "keys MOVES = [''rock'', ''paper'', ''scissor'', ''spock'', ''lizard'']"
    by (simp add: keys_def MOVES_def)
  from a show "length (filter (beats_in MOVES a) (keys MOVES)) = 2"
    unfolding keys_MOVES unfolding k beats_in_MOVES by (elim insertE emptyE) simp_all
  from a show "length (filter (\<lambda>b. beats_in MOVES b a) (keys MOVES)) = 2"
    unfolding keys_MOVES unfolding k beats_in_MOVES by (elim insertE emptyE) simp_all
next
  assume "um \<in> set (keys mv) \<and> om \<in> set (keys mv)"
  then show "determine_round_winner mv cfg um om =
           Inr (if beats_in mv om um then Some (opponent_name cfg)
                else if beats_in mv um om then Some ''user'' else None)"
    by (simp add: resolve_keys)
qed

theorem MOVES_tournament_witness:
  "''rock'' \<in> set (keys MOVES) \<and> ''paper'' \<in> set (keys MOVES) \<and> ''rock'' \<noteq> ''paper''
   \<and> beats_in MOVES ''paper'' ''rock'' \<and> \<not> beats_in MOVES ''rock'' ''paper''
   \<and> \<not> beats_in MOVES ''rock'' ''rock''
   \<and> filter (beats_in MOVES ''rock'') (keys MOVES) = [''scissor'', ''lizard'']
   \<and> filter (\<lambda>b. beats_in MOVES b ''rock'') (keys MOVES) = [''paper'', ''spock'']
   \<and> ''rock'' \<in> set (keys MOVES_both_ways) \<and> ''paper'' \<in> set (keys MOVES_both_ways)
   \<and> determine_round_winner MOVES_both_ways SETTINGS ''rock'' ''paper''
       = Inr (Some ''Monty'')"
proof -
  note t = MOVES_tournament [where mv = MOVES_both_ways and cfg = SETTINGS
      and um = "''rock''" and om = "''paper''"]
  have r: "''rock'' \<in> set (keys MOVES)" and p: "''paper'' \<in> set (keys MOVES)"
    by (simp_all add: keys_MOVES)
  have ne: "''rock'' \<noteq> ''paper''" by simp
  have pr: "beats_in MOVES ''paper'' ''rock''"
    by (simp add: beats_in_MOVES)
  have f: "filter (beats_in MOVES ''rock'') (keys MOVES) = [''scissor'', ''lizard'']"
    and f': "filter (\<lambda>b. beats_in MOVES b ''rock'') (keys MOVES) = [''paper'', ''spock'']"
    by (simp_all add: keys_def MOVES_def beats_in_def)
  from t [THEN conjunct2, THEN conjunct1, rule_format, OF r p ne] pr
  have rp: "\<not> beats_in MOVES ''rock'' ''paper''" by simp
  from t [THEN conjunct2, THEN conjunct2, THEN conjunct1, rule_format, OF r]
  have rr: "\<not> beats_in MOVES ''rock'' ''rock''" by simp
  have rb: "''rock'' \<in> set (keys MOVES_both_ways)"
    and pb: "''paper'' \<in> set (keys MOVES_both_ways)"
    by (simp_all add: keys_def MOVES_both_ways_def)
  have b: "beats_in MOVES_both_ways ''paper'' ''rock''"
    by (simp add: beats_in_def MOVES_both_ways_def)
  have n: "opponent_name SETTINGS = ''Monty''" by (simp add: SETTINGS_def)
  from t [THEN conjunct2, THEN conjunct2, THEN conjunct2, rule_format, OF conjI [OF rb pb]]
  have w: "determine_round_winner MOVES_both_ways SETTINGS ''rock'' ''paper''
             = Inr (Some ''Monty'')"
    by (simp add: b n)
  show ?thesis by (intro conjI; rule r p ne pr rp rr f f' rb pb w)
qed

text \<open>
  C3 as stated asks for a validation of the catalog whose failure is fatal. Nothing in
  the program validates: with the catalog \<open>MOVES_both_ways\<close>, where rock and paper beat
  each other and rock against lizard is undecided, the input check accepts a move and
  rounds are applied without any exception.
\<close>

theorem no_catalog_validation:
  "beats_in MOVES_both_ways ''rock'' ''paper'' \<and> beats_in MOVES_both_ways ''paper'' ''rock''
   \<and> \<not> beats_in MOVES_both_ways ''rock'' ''lizard''
   \<and> \<not> beats_in MOVES_both_ways ''lizard'' ''rock''
   \<and> is_valid_input MOVES_both_ways ''rock''
   \<and> process_round MOVES_both_ways SETTINGS create_game ''rock'' ''paper''
       = Inr \<lparr>current_round = 2, tiebreaker_round = False, user_score = 0,
              opponent_score = 1, round_winner = Some ''Monty'', grand_winner = None\<rparr>
   \<and> process_round MOVES_both_ways SETTINGS create_game ''rock'' ''lizard''
       = Inr \<lparr>current_round = 2, tiebreaker_round = False, user_score = 0,
              opponent_score = 0, round_winner = None, grand_winner = None\<rparr>"
  by (simp add: beats_in_def MOVES_both_ways_def is_valid_input_def keys_def vals_def
      COMMANDS_def process_round_def determine_round_winner_def getitem_def
      increment_score_def determine_grand_winner_def create_game_def SETTINGS_def)


section \<open>Properties of a round\<close>

text \<open>What a round that raises no exception does to each field of the game.\<close>

lemma process_round_Inr:
  assumes "process_round mv cfg g um om = Inr g'"
  obtains winner where
    "determine_round_winner mv cfg um om = Inr winner"
    "round_winner g' = winner"
    "current_round g' = current_round g + 1"
    "user_score g' = user_score g + (if winner = Some ''user'' then 1 else 0)"
    "opponent_score g' = opponent_score g + (if winner = Some (opponent_name cfg) then 1 else 0)"
    "grand_winner g' = determine_grand_winner cfg g'"
    "tiebreaker_round g' \<longleftrightarrow> user_score g' = 2 \<and> opponent_score g' = 2"
  using assms
  by (auto simp: process_round_def increment_score_def determine_grand_winner_def Let_def
      split: sum.splits)

lemma process_round_ignores_flag:
  "process_round mv cfg (g\<lparr>tiebreaker_round := b\<rparr>) um om = process_round mv cfg g um om"
  by (simp add: process_round_def increment_score_def determine_grand_winner_def Let_def
      split: sum.splits)

lemmas round_defs =
  process_round_def determine_round_winner_def getitem_def increment_score_def
  determine_grand_winner_def

text \<open>
  C5. After every applied round the tiebreaker flag is true exactly when both scores
  are 2. It is recomputed from the scores: the flag the game had before the round does
  not influence the result, and a tied round played at 2-2 leaves it true.
\<close>

theorem tiebreaker_recomputed:
  assumes "process_round mv cfg g um om = Inr g'"
  shows "(tiebreaker_round g' \<longleftrightarrow> user_score g' = 2 \<and> opponent_score g' = 2)
         \<and> process_round mv cfg (g\<lparr>tiebreaker_round := b\<rparr>) um om = Inr g'
         \<and> (round_winner g' = None \<and> user_score g = 2 \<and> opponent_score g = 2
              \<longrightarrow> tiebreaker_round g')"
proof -
  from assms obtain winner where w:
    "round_winner g' = winner"
    "user_score g' = user_score g + (if winner = Some ''user'' then 1 else 0)"
    "opponent_score g' = opponent_score g + (if winner = Some (opponent_name cfg) then 1 else 0)"
    "tiebreaker_round g' \<longleftrightarrow> user_score g' = 2 \<and> opponent_score g' = 2"
    by (rule process_round_Inr)
  from w assms show ?thesis
    by (simp add: process_round_ignores_flag)
qed


theorem tiebreaker_recomputed_witness:
  "process_round MOVES SETTINGS deadlock_stale ''rock'' ''rock''
     = Inr \<lparr>current_round = 6, tiebreaker_round = True, user_score = 2, opponent_score = 2,
            round_winner = None, grand_winner = None\<rparr>
   \<and> process_round MOVES SETTINGS (deadlock_stale\<lparr>tiebreaker_round := True\<rparr>) ''rock'' ''rock''
     = Inr \<lparr>current_round = 6, tiebreaker_round = True, user_score = 2, opponent_score = 2,
            round_winner = None, grand_winner = None\<rparr>"
proof -
  have e: "process_round MOVES SETTINGS deadlock_stale ''rock'' ''rock''
     = Inr \<lparr>current_round = 6, tiebreaker_round = True, user_score = 2, opponent_score = 2,
            round_winner = None, grand_winner = None\<rparr>"
    by (simp add: round_defs MOVES_def SETTINGS_def deadlock_stale_def)
  from tiebreaker_recomputed [OF e, of True] e show ?thesis by simp
qed

text \<open>
  C10. The winner of a round is the string \<open>"user"\<close> or the configured opponent name.
  If that name is \<open>"user"\<close>, a round in which the user's move beats the opponent's adds
  one to both scores; for every other name a round changes at most one score.
\<close>

theorem opponent_named_user:
  assumes "process_round mv cfg g um om = Inr g'"
  shows "(opponent_name cfg = ''user'' \<and> beats_in mv um om
            \<longrightarrow> user_score g' = user_score g + 1 \<and> opponent_score g' = opponent_score g + 1)
         \<and> (opponent_name cfg \<noteq> ''user''
            \<longrightarrow> user_score g' = user_score g \<or> opponent_score g' = opponent_score g)"
proof -
  from assms obtain winner where w:
    "determine_round_winner mv cfg um om = Inr winner"
    "user_score g' = user_score g + (if winner = Some ''user'' then 1 else 0)"
    "opponent_score g' = opponent_score g + (if winner = Some (opponent_name cfg) then 1 else 0)"
    by (rule process_round_Inr)
  from resolve_Inr [OF w(1)] w(2,3) show ?thesis
    by (simp split: if_splits)
qed

theorem opponent_named_user_witness:
  "beats_in MOVES ''rock'' ''scissor''
   \<and> process_round MOVES (SETTINGS\<lparr>opponent_name := ''user''\<rparr>) create_game ''rock'' ''scissor''
     = Inr \<lparr>current_round = 2, tiebreaker_round = False, user_score = 1, opponent_score = 1,
            round_winner = Some ''user'', grand_winner = None\<rparr>
   \<and> process_round MOVES SETTINGS create_game ''rock'' ''scissor''
     = Inr \<lparr>current_round = 2, tiebreaker_round = False, user_score = 1, opponent_score = 0,
            round_winner = Some ''user'', grand_winner = None\<rparr>"
proof -
  have b: "beats_in MOVES ''rock'' ''scissor''" by (simp add: beats_in_MOVES)
  have e1: "process_round MOVES (SETTINGS\<lparr>opponent_name := ''user''\<rparr>) create_game
              ''rock'' ''scissor''
     = Inr \<lparr>current_round = 2, tiebreaker_round = False, user_score = 1, opponent_score = 1,
            round_winner = Some ''user'', grand_winner = None\<rparr>"
    by (simp add: round_defs MOVES_def SETTINGS_def create_game_def)
  have e2: "process_round MOVES SETTINGS create_game ''rock'' ''scissor''
     = Inr \<lparr>current_round = 2, tiebreaker_round = False, user_score = 1, opponent_score = 0,
            round_winner = Some ''user'', grand_winner = None\<rparr>"
    by (simp add: round_defs MOVES_def SETTINGS_def create_game_def)
  from opponent_named_user [OF e1] opponent_named_user [OF e2] b e1 e2
  show ?thesis by simp
qed


section \<open>Sequences of rounds\<close>

lemma length_filter_all:
  "length (filter P xs) = length xs \<longleftrightarrow> (\<forall>x \<in> set xs. P x)"
proof (induction xs)
  case Nil
  show ?case by simp
next
  case (Cons x xs)
  have "length (filter P xs) \<noteq> Suc (length xs)"
    using length_filter_le [of P xs] by arith
  with Cons show ?case by simp
qed

text \<open>
  Unless the opponent is named \<open>"user"\<close>, the two scores together grow by one in every
  round that is not a tie.
\<close>

lemma process_rounds_scores:
  assumes "process_rounds mv cfg g rs = Inr g'" and "opponent_name cfg \<noteq> ''user''"
  shows "user_score g' + opponent_score g'
           = user_score g + opponent_score g + int (length (filter (untied mv cfg) rs))"
  using assms
proof (induction rs arbitrary: g)
  case Nil
  then show ?case by simp
next
  case (Cons r rs)
  obtain um om where r: "r = (um, om)" by (cases r)
  from Cons.prems(1) r obtain g1 where
    g1: "process_round mv cfg g um om = Inr g1" and rest: "process_rounds mv cfg g1 rs = Inr g'"
    by (auto split: sum.splits)
  from g1 obtain winner where w:
    "determine_round_winner mv cfg um om = Inr winner"
    "user_score g1 = user_score g + (if winner = Some ''user'' then 1 else 0)"
    "opponent_score g1 = opponent_score g + (if winner = Some (opponent_name cfg) then 1 else 0)"
    by (rule process_round_Inr)
  from resolve_Inr [OF w(1)] w Cons.prems(2)
  have "user_score g1 + opponent_score g1
          = user_score g + opponent_score g + (if untied mv cfg r then 1 else 0)"
    by (simp add: untied_def r split: if_splits)
  with Cons.IH [OF rest Cons.prems(2)] show ?case by simp
qed

text \<open>
  C7. From the initial game and with the configured settings, after any list of \<open>N\<close>
  rounds the two scores add up to at most \<open>N\<close>, and to exactly \<open>N\<close> if and only if no
  round of the list tied. In a single round, a user win adds one to the user score
  only, an opponent win adds one to the opponent score only, a tie changes neither.
\<close>

theorem scores_count_untied_rounds:
  assumes "process_rounds MOVES SETTINGS create_game rs = Inr g"
  shows "user_score g + opponent_score g \<le> int (length rs)
         \<and> (user_score g + opponent_score g = int (length rs)
              \<longleftrightarrow> (\<forall>r \<in> set rs. untied MOVES SETTINGS r))
         \<and> (process_round MOVES SETTINGS g0 um om = Inr g1 \<longrightarrow>
              (round_winner g1 = Some ''user''
                 \<longrightarrow> user_score g1 = user_score g0 + 1
                     \<and> opponent_score g1 = opponent_score g0)
              \<and> (round_winner g1 = Some (opponent_name SETTINGS)
                 \<longrightarrow> user_score g1 = user_score g0
                     \<and> opponent_score g1 = opponent_score g0 + 1)
              \<and> (round_winner g1 = None
                 \<longrightarrow> user_score g1 = user_score g0
                     \<and> opponent_score g1 = opponent_score g0))"
proof (intro conjI impI)
  have n: "opponent_name SETTINGS \<noteq> ''user''" by (simp add: SETTINGS_def)
  have s: "user_score g + opponent_score g
             = int (length (filter (untied MOVES SETTINGS) rs))"
    using process_rounds_scores [OF assms n] by (simp add: create_game_def)
  show "user_score g + opponent_score g \<le> int (length rs)"
    unfolding s by simp
  show "user_score g + opponent_score g = int (length rs)
          \<longleftrightarrow> (\<forall>r \<in> set rs. untied MOVES SETTINGS r)"
    unfolding s by (simp add: length_filter_all)
  {
    assume r: "process_round MOVES SETTINGS g0 um om = Inr g1"
    then obtain winner where w:
      "round_winner g1 = winner"
      "user_score g1 = user_score g0 + (if winner = Some ''user'' then 1 else 0)"
      "opponent_score g1
         = opponent_score g0 + (if winner = Some (opponent_name SETTINGS) then 1 else 0)"
      by (rule process_round_Inr)
    { assume "round_winner g1 = Some ''user''"
      with w n show "user_score g1 = user_score g0 + 1"
        and "opponent_score g1 = opponent_score g0" by auto }
    { assume "round_winner g1 = Some (opponent_name SETTINGS)"
      with w n show "user_score g1 = user_score g0"
        and "opponent_score g1 = opponent_score g0 + 1" by auto }
    { assume "round_winner g1 = None"
      with w show "user_score g1 = user_score g0"
        and "opponent_score g1 = opponent_score g0" by auto }
  }
qed


theorem scores_count_untied_rounds_witness:
  "process_rounds MOVES SETTINGS create_game
      [(''rock'', ''scissor''), (''rock'', ''rock''), (''rock'', ''paper'')]
     = Inr \<lparr>current_round = 4, tiebreaker_round = False, user_score = 1, opponent_score = 1,
            round_winner = Some ''Monty'', grand_winner = None\<rparr>
   \<and> \<not> untied MOVES SETTINGS (''rock'', ''rock'')
   \<and> process_round MOVES SETTINGS create_game ''rock'' ''paper''
     = Inr \<lparr>current_round = 2, tiebreaker_round = False, user_score = 0, opponent_score = 1,
            round_winner = Some ''Monty'', grand_winner = None\<rparr>"
proof -
  have e: "process_rounds MOVES SETTINGS create_game
      [(''rock'', ''scissor''), (''rock'', ''rock''), (''rock'', ''paper'')]
     = Inr \<lparr>current_round = 4, tiebreaker_round = False, user_score = 1, opponent_score = 1,
            round_winner = Some ''Monty'', grand_winner = None\<rparr>"
    by (simp add: round_defs MOVES_def SETTINGS_def create_game_def)
  have p: "process_round MOVES SETTINGS create_game ''rock'' ''paper''
     = Inr \<lparr>current_round = 2, tiebreaker_round = False, user_score = 0, opponent_score = 1,
            round_winner = Some ''Monty'', grand_winner = None\<rparr>"
    by (simp add: round_defs MOVES_def SETTINGS_def create_game_def)
  have t: "\<not> untied MOVES SETTINGS (''rock'', ''rock'')"
    by (simp add: untied_def determine_round_winner_def getitem_def MOVES_def)
  from scores_count_untied_rounds [OF e, of create_game "''rock''" "''paper''"] e p t
  show ?thesis by simp
qed

text \<open>
  C9. The concrete cases: rock against scissor is won by the user, rock against spock
  by the opponent, lizard against lizard ties; \<open>"r"\<close> is classified as rock, \<open>"banana"\<close>
  as no move; four rounds with the outcomes user, user, opponent, opponent lead from
  the initial game to 2-2 with the tiebreaker flag set and no grand winner; a fifth
  round won by the user leads to 3-2 with the user as grand winner.
\<close>

theorem concrete_cases:
  "determine_round_winner MOVES SETTINGS ''rock'' ''scissor'' = Inr (Some ''user'')
   \<and> determine_round_winner MOVES SETTINGS ''rock'' ''spock''
       = Inr (Some (opponent_name SETTINGS))
   \<and> determine_round_winner MOVES SETTINGS ''lizard'' ''lizard'' = Inr None
   \<and> classify uni MOVES ''r'' = Some ''rock''
   \<and> classify uni MOVES ''banana'' = None
   \<and> map (\<lambda>(um, om). determine_round_winner MOVES SETTINGS um om)
        [(''rock'', ''scissor''), (''paper'', ''rock''), (''rock'', ''paper''),
         (''scissor'', ''rock'')]
       = [Inr (Some ''user''), Inr (Some ''user''),
          Inr (Some (opponent_name SETTINGS)), Inr (Some (opponent_name SETTINGS))]
   \<and> process_rounds MOVES SETTINGS create_game
        [(''rock'', ''scissor''), (''paper'', ''rock''), (''rock'', ''paper''),
         (''scissor'', ''rock'')]
       = Inr \<lparr>current_round = 5, tiebreaker_round = True, user_score = 2,
              opponent_score = 2, round_winner = Some ''Monty'', grand_winner = None\<rparr>
   \<and> determine_round_winner MOVES SETTINGS ''spock'' ''rock'' = Inr (Some ''user'')
   \<and> process_rounds MOVES SETTINGS create_game
        [(''rock'', ''scissor''), (''paper'', ''rock''), (''rock'', ''paper''),
         (''scissor'', ''rock''), (''spock'', ''rock'')]
       = Inr \<lparr>current_round = 6, tiebreaker_round = False, user_score = 3,
              opponent_score = 2, round_winner = Some ''user'',
              grand_winner = Some ''user''\<rparr>"
proof (intro conjI)
  show "classify uni MOVES ''r'' = Some ''rock''"
    by (simp add: classify_def lower_def isascii_def len_def lower_ascii_char_def
        get_input_type_def is_valid_input_def keys_def vals_def COMMANDS_def MOVES_def)
  show "classify uni MOVES ''banana'' = None"
    by (simp add: classify_def lower_def isascii_def len_def lower_ascii_char_def
        get_input_type_def is_valid_input_def keys_def vals_def COMMANDS_def MOVES_def)
qed (simp_all add: round_defs MOVES_def SETTINGS_def create_game_def)


section \<open>Properties of the input classifier\<close>










section \<open>Properties of the match loop\<close>

text \<open>
  What \<open>play_round\<close> does with the first line it reads: a line that \<open>classify\<close> takes
  for a move is played against a drawn opponent move, any other line leaves the game
  as it is and the loop reads on.
\<close>

lemma play_round_move:
  assumes "input_line w = Inr (line, w1)" and "classify uni mv line = Some m"
  shows "play_round uni mv cfg g w =
    (case random_choice (keys mv) w1 of
       Inl e \<Rightarrow> Inl e
     | Inr (opponent_move, w2) \<Rightarrow>
        (case process_round mv cfg g m opponent_move of
           Inl e \<Rightarrow> Inl e
         | Inr g' \<Rightarrow>
            (case display_round_results uni mv w2 of
               Inl e \<Rightarrow> Inl e
             | Inr w' \<Rightarrow> Inr (g', w'))))"
  using assms
  by (subst play_round.simps)
     (auto simp: classify_def process_moves_def Let_def split: if_splits sum.splits)

lemma play_round_no_move:
  assumes "input_line w = Inr (line, w1)" and "classify uni mv line = None"
  shows "play_round uni mv cfg g w =
    (case (if get_input_type mv (lower uni line) = ''command''
           then process_command uni mv (lower uni line) w1
           else prompt_enter_to_continue uni mv True w1) of
       Inl e \<Rightarrow> Inl e
     | Inr w2 \<Rightarrow> play_round uni mv cfg g w2)"
  using assms
  by (subst play_round.simps) (auto simp: classify_def Let_def split: if_splits)

lemma random_choice_member:
  "random_choice xs w = Inr (x, w') \<Longrightarrow> x \<in> set xs"
  by (auto simp: random_choice_def split: if_splits)

lemma play_round_applies:
  "play_round uni mv cfg g w = Inr (g', w') \<Longrightarrow>
     \<exists>line m om. classify uni mv line = Some m \<and> om \<in> set (keys mv)
                 \<and> process_round mv cfg g m om = Inr g'"
proof (induction uni mv cfg g w rule: play_round.induct)
  case (1 uni mv cfg g w)
  from "1.prems" obtain line w1 where il: "input_line w = Inr (line, w1)"
    by (subst (asm) play_round.simps) (auto split: sum.splits)
  show ?case
  proof (cases "classify uni mv line")
    case (Some m)
    from "1.prems" obtain om w2 where
      "random_choice (keys mv) w1 = Inr (om, w2)" "process_round mv cfg g m om = Inr g'"
      unfolding play_round_move [OF il Some] by (auto split: sum.splits)
    with Some show ?thesis by (blast dest: random_choice_member)
  next
    case None
    then have nm: "get_input_type mv (lower uni line) \<noteq> ''move''"
      by (auto simp: classify_def Let_def split: if_splits)
    from "1.prems" obtain w2 where
      step: "(if get_input_type mv (lower uni line) = ''command''
              then process_command uni mv (lower uni line) w1
              else prompt_enter_to_continue uni mv True w1) = Inr w2"
      and rest: "play_round uni mv cfg g w2 = Inr (g', w')"
      unfolding play_round_no_move [OF il None] by (auto split: sum.splits)
    from "1.IH" [OF il refl refl refl nm step rest] show ?thesis .
  qed
qed

text \<open>
  With an opponent name that is neither \<open>"user"\<close> nor empty, the scores of a match stay
  between 0 and 3, never both reach 3, and the grand winner is the one the scores give.
\<close>

lemma match_state_invariant:
  assumes "match_state uni mv cfg g"
    and "opponent_name cfg \<noteq> ''user''" and "opponent_name cfg \<noteq> []"
  shows "0 \<le> user_score g \<and> user_score g \<le> 3
         \<and> 0 \<le> opponent_score g \<and> opponent_score g \<le> 3
         \<and> \<not> (user_score g = 3 \<and> opponent_score g = 3)
         \<and> grand_winner g = determine_grand_winner cfg g"
  using assms
proof (induction rule: match_state.induct)
  case start
  show ?case by (simp add: create_game_def determine_grand_winner_def)
next
  case (round g w g' w')
  from round.IH round.prems have inv:
    "0 \<le> user_score g" "0 \<le> opponent_score g"
    "grand_winner g = determine_grand_winner cfg g" by simp_all
  from round.hyps(2) inv(3) round.prems have small: "user_score g \<le> 2" "opponent_score g \<le> 2"
    by (auto simp: truthy_def determine_grand_winner_def split: if_splits)
  from play_round_applies [OF round.hyps(3)] obtain um om where
    "process_round mv cfg g um om = Inr g'" by blast
  then obtain winner where w:
    "user_score g' = user_score g + (if winner = Some ''user'' then 1 else 0)"
    "opponent_score g'
       = opponent_score g + (if winner = Some (opponent_name cfg) then 1 else 0)"
    "grand_winner g' = determine_grand_winner cfg g'"
    by (rule process_round_Inr)
  from w inv small round.prems show ?case
    by (auto split: if_splits)
qed


lemma play_game_loop_ends:
  "play_game_loop uni mv cfg g w = Inr (g', w') \<Longrightarrow> truthy (grand_winner g')"
proof (induction uni mv cfg g w rule: play_game_loop.induct)
  case (1 uni mv cfg g w)
  show ?case
  proof (cases "truthy (grand_winner g)")
    case True
    with "1.prems" show ?thesis by (simp add: play_game_loop.simps)
  next
    case False
    with "1.prems" obtain g1 w1 where
      pr: "play_round uni mv cfg g w = Inr (g1, w1)"
      and rest: "play_game_loop uni mv cfg g1 w1 = Inr (g', w')"
      by (subst (asm) play_game_loop.simps) (auto split: sum.splits)
    from "1.IH" [OF False pr refl rest] show ?thesis .
  qed
qed

lemma play_game_loop_match_state:
  "match_state uni mv cfg g \<Longrightarrow> play_game_loop uni mv cfg g w = Inr (g', w') \<Longrightarrow>
     match_state uni mv cfg g' \<and> truthy (grand_winner g')"
proof (induction uni mv cfg g w rule: play_game_loop.induct)
  case (1 uni mv cfg g w)
  show ?case
  proof (cases "truthy (grand_winner g)")
    case True
    with "1.prems" show ?thesis by (simp add: play_game_loop.simps)
  next
    case False
    with "1.prems"(2) obtain g1 w1 where
      pr: "play_round uni mv cfg g w = Inr (g1, w1)"
      and rest: "play_game_loop uni mv cfg g1 w1 = Inr (g', w')"
      by (subst (asm) play_game_loop.simps) (auto split: sum.splits)
    from "1.prems"(1) False pr have "match_state uni mv cfg g1" by (rule match_state.round)
    from "1.IH" [OF False pr refl this rest] show ?thesis .
  qed
qed

lemmas loop_defs =
  play_game_loop.simps play_round.simps prompt_enter_to_continue.simps
  process_command.simps process_moves_def display_round_results_def input_line_def
  random_choice_def get_input_type_def is_valid_input_def keys_def vals_def
  COMMANDS_def truthy_def lower_def isascii_def len_def lower_ascii_char_def
  char_of_eq_iff

lemma three_rocks_match:
  "play_game_loop uni MOVES SETTINGS create_game three_rocks
     = Inr (user_won, \<lparr>stdin = [], draws = (\<lambda>i. 2), drawn = 3\<rparr>)"
  by (simp add: loop_defs round_defs MOVES_def SETTINGS_def create_game_def
      three_rocks_def user_won_def)


lemma user_won_match_state: "match_state uni MOVES SETTINGS user_won"
  using play_game_loop_match_state [OF match_state.start three_rocks_match] by simp

text \<open>
  C6. With the configured catalog and settings, in every game of a match the grand
  winner is the user if the user score has reached 3, the opponent if the opponent
  score has reached 3, and unset otherwise. A game in which a score has reached 3 ends
  the match loop at once. The tiebreaker flag has no part in it: a round gives the same
  result whatever the flag was. After a round applied to any game at all, the grand
  winner is the one the thresholds give, the user first.
\<close>

theorem grand_winner_at_three:
  assumes "match_state uni MOVES SETTINGS g"
  shows "(3 \<le> user_score g \<longrightarrow> grand_winner g = Some ''user'')
         \<and> (3 \<le> opponent_score g \<longrightarrow> grand_winner g = Some (opponent_name SETTINGS))
         \<and> (user_score g < 3 \<and> opponent_score g < 3 \<longrightarrow> grand_winner g = None)
         \<and> (3 \<le> user_score g \<or> 3 \<le> opponent_score g
              \<longrightarrow> play_game_loop uni MOVES SETTINGS g w = Inr (g, w))
         \<and> process_round MOVES SETTINGS (g\<lparr>tiebreaker_round := b\<rparr>) um om
              = process_round MOVES SETTINGS g um om
         \<and> (process_round MOVES SETTINGS g0 um om = Inr g1 \<longrightarrow>
               grand_winner g1 =
                 (if 3 \<le> user_score g1 then Some ''user''
                  else if 3 \<le> opponent_score g1 then Some (opponent_name SETTINGS)
                  else None))"
proof -
  have n: "opponent_name SETTINGS \<noteq> ''user''" "opponent_name SETTINGS \<noteq> []"
    by (simp_all add: SETTINGS_def)
  from match_state_invariant [OF assms n] have inv:
    "\<not> (user_score g = 3 \<and> opponent_score g = 3)"
    "user_score g \<le> 3" "opponent_score g \<le> 3"
    "grand_winner g = determine_grand_winner SETTINGS g" by simp_all
  from inv have gw:
    "3 \<le> user_score g \<longrightarrow> grand_winner g = Some ''user''"
    "3 \<le> opponent_score g \<longrightarrow> grand_winner g = Some (opponent_name SETTINGS)"
    "user_score g < 3 \<and> opponent_score g < 3 \<longrightarrow> grand_winner g = None"
    by (auto simp: determine_grand_winner_def)
  from gw n have stop:
    "3 \<le> user_score g \<or> 3 \<le> opponent_score g
       \<longrightarrow> play_game_loop uni MOVES SETTINGS g w = Inr (g, w)"
    by (auto simp: play_game_loop.simps truthy_def)
  have after: "process_round MOVES SETTINGS g0 um om = Inr g1 \<longrightarrow>
               grand_winner g1 =
                 (if 3 \<le> user_score g1 then Some ''user''
                  else if 3 \<le> opponent_score g1 then Some (opponent_name SETTINGS)
                  else None)"
  proof
    assume "process_round MOVES SETTINGS g0 um om = Inr g1"
    then have "grand_winner g1 = determine_grand_winner SETTINGS g1"
      by (auto elim: process_round_Inr)
    then show "grand_winner g1 =
                 (if 3 \<le> user_score g1 then Some ''user''
                  else if 3 \<le> opponent_score g1 then Some (opponent_name SETTINGS)
                  else None)"
      by (auto simp: determine_grand_winner_def)
  qed
  from gw stop after show ?thesis
    by (simp only: process_round_ignores_flag)
qed

theorem grand_winner_at_three_witness:
  "match_state lower_kelvin MOVES SETTINGS user_won \<and> 3 \<le> user_score user_won
   \<and> grand_winner user_won = Some ''user''
   \<and> play_game_loop lower_kelvin MOVES SETTINGS user_won three_rocks = Inr (user_won, three_rocks)
   \<and> match_state lower_kelvin MOVES SETTINGS create_game
   \<and> user_score create_game < 3 \<and> opponent_score create_game < 3
   \<and> grand_winner create_game = None"
proof -
  note won = grand_winner_at_three [OF user_won_match_state, where uni = lower_kelvin and w = three_rocks]
  note fresh = grand_winner_at_three [OF match_state.start, where uni = lower_kelvin and w = three_rocks]
  have m: "match_state lower_kelvin MOVES SETTINGS user_won" by (rule user_won_match_state)
  have u: "3 \<le> user_score user_won" by (simp add: user_won_def)
  then have u': "3 \<le> user_score user_won \<or> 3 \<le> opponent_score user_won" ..
  have gw: "grand_winner user_won = Some ''user''"
    by (rule won [THEN conjunct1, THEN mp, OF u])
  have stop: "play_game_loop lower_kelvin MOVES SETTINGS user_won three_rocks = Inr (user_won, three_rocks)"
    by (rule won [THEN conjunct2, THEN conjunct2, THEN conjunct2, THEN conjunct1, THEN mp,
          OF u'])
  have s: "match_state lower_kelvin MOVES SETTINGS create_game" by (rule match_state.start)
  have c1: "user_score create_game < 3" and c2: "opponent_score create_game < 3"
    by (simp_all add: create_game_def)
  have none: "grand_winner create_game = None"
    by (rule fresh [THEN conjunct2, THEN conjunct2, THEN conjunct1, THEN mp,
          OF conjI [OF c1 c2]])
  show ?thesis by (intro conjI; rule m u gw stop s c1 c2 none)
qed

text \<open>
  C4 (as amended). The guard is in the match loop, not in \<open>process_round\<close>: on a game
  whose grand winner is set (a non-empty string, as it is in every match with the
  configured names), \<open>play_game\<close>'s loop plays no round, reads no input and returns the
  game unchanged; and the loop returns only games whose grand winner is set.
\<close>

theorem match_loop_guards_rounds:
  "(truthy (grand_winner g) \<longrightarrow> play_game_loop uni mv cfg g w = Inr (g, w))
   \<and> (play_game_loop uni mv cfg g w = Inr (g', w') \<longrightarrow> truthy (grand_winner g'))
   \<and> (match_state uni MOVES SETTINGS g \<and> grand_winner g \<noteq> None \<longrightarrow> truthy (grand_winner g))"
proof (intro conjI impI)
  assume "truthy (grand_winner g)"
  then show "play_game_loop uni mv cfg g w = Inr (g, w)"
    by (simp add: play_game_loop.simps)
next
  assume "play_game_loop uni mv cfg g w = Inr (g', w')"
  then show "truthy (grand_winner g')" by (rule play_game_loop_ends)
next
  assume a: "match_state uni MOVES SETTINGS g \<and> grand_winner g \<noteq> None"
  have n: "opponent_name SETTINGS \<noteq> ''user''" "opponent_name SETTINGS \<noteq> []"
    by (simp_all add: SETTINGS_def)
  from a match_state_invariant [OF _ n, of uni MOVES g]
  have "grand_winner g = determine_grand_winner SETTINGS g" by simp
  with a n show "truthy (grand_winner g)"
    by (auto simp: truthy_def determine_grand_winner_def split: if_splits)
qed

theorem match_loop_guards_rounds_witness:
  "truthy (grand_winner user_won) \<and> match_state lower_kelvin MOVES SETTINGS user_won
   \<and> grand_winner user_won \<noteq> None
   \<and> play_game_loop lower_kelvin MOVES SETTINGS user_won three_rocks = Inr (user_won, three_rocks)
   \<and> play_game_loop lower_kelvin MOVES SETTINGS create_game three_rocks
       = Inr (user_won, \<lparr>stdin = [], draws = (\<lambda>i. 2), drawn = 3\<rparr>)"
proof -
  note at_end = match_loop_guards_rounds
    [where uni = lower_kelvin and g = user_won and mv = MOVES and cfg = SETTINGS and w = three_rocks]
  note whole = match_loop_guards_rounds
    [where uni = lower_kelvin and g = create_game and mv = MOVES and cfg = SETTINGS and w = three_rocks
       and g' = user_won and w' = "\<lparr>stdin = [], draws = (\<lambda>i. 2), drawn = 3\<rparr>"]
  have m: "match_state lower_kelvin MOVES SETTINGS user_won" by (rule user_won_match_state)
  have g: "grand_winner user_won \<noteq> None" by (simp add: user_won_def)
  have t: "truthy (grand_winner user_won)"
    by (rule at_end [THEN conjunct2, THEN conjunct2, THEN mp, OF conjI [OF m g]])
  have t': "truthy (grand_winner user_won)"
    by (rule whole [THEN conjunct2, THEN conjunct1, THEN mp, OF three_rocks_match])
  have stop: "play_game_loop lower_kelvin MOVES SETTINGS user_won three_rocks = Inr (user_won, three_rocks)"
    by (rule at_end [THEN conjunct1, THEN mp, OF t'])
  show ?thesis by (intro conjI; rule t m g stop three_rocks_match)
qed

text \<open>
  C4 as stated has the round function itself reject a game whose grand winner is set.
  \<open>process_round\<close> does not: applied to the game after three rounds won by the user, it
  raises nothing and returns a game with the round counted and the user score at 4.
\<close>

theorem process_round_has_no_guard:
  "process_rounds MOVES SETTINGS create_game
      [(''rock'', ''scissor''), (''rock'', ''scissor''), (''rock'', ''scissor'')]
     = Inr user_won
   \<and> grand_winner user_won = Some ''user''
   \<and> process_round MOVES SETTINGS user_won ''rock'' ''scissor''
     = Inr \<lparr>current_round = 5, tiebreaker_round = False, user_score = 4, opponent_score = 0,
            round_winner = Some ''user'', grand_winner = Some ''user''\<rparr>"
  by (simp add: round_defs MOVES_def SETTINGS_def create_game_def user_won_def)


end
